theory Spec2Isabelle
  imports Complex_Main "HOL-Library.Char_ord" "HOL-Library.List_Lexorder" "HOL-Library.Sublist"
begin

section \<open>Errors raised by the interpreter and the libraries\<close>

text \<open>
  The script catches only \<open>ValueError\<close> (inside the three input loops); every other
  exception ends the run.  \<open>Enlargement\<close> is not an exception: it marks the one pandas
  behaviour the table model below does not follow (assigning through \<open>.loc\<close> to a row
  label or a column label that the frame does not have enlarges the frame; older
  versions raise \<open>KeyError\<close> for a missing column).
\<close>

datatype py_error =
  ValueError | EOFError | FileExistsError | FileNotFoundError | NotADirectoryError |
  Enlargement

section \<open>Transaction encoder (\<open>transactions_to_df\<close>)\<close>

text \<open>
  A transaction is a Python \<open>set\<close> of strings.  The encoded table is a data frame with
  string column labels and the row labels \<open>range(len(transactions))\<close>, so a row label is
  the row's position; the cells are integers.
\<close>

type_synonym transaction = "string set"

record one_hot =
  columns :: "string list"
  cells :: "int list list"

text \<open>\<open>pd.DataFrame(0, index=range(n), columns=cols)\<close>\<close>

definition zero_frame :: "nat \<Rightarrow> string list \<Rightarrow> one_hot" where
  "zero_frame n cols = \<lparr>columns = cols, cells = replicate n (replicate (length cols) 0)\<rparr>"

text \<open>
  \<open>df.loc[i, list(t)] = v\<close>, where row \<open>i\<close> is in the index and every label of \<open>t\<close> is a
  column: the cells of row \<open>i\<close> under these labels become \<open>v\<close>, all other cells keep
  their value.
\<close>

definition loc_assign :: "one_hot \<Rightarrow> nat \<Rightarrow> transaction \<Rightarrow> int \<Rightarrow> py_error + one_hot" where
  "loc_assign df i t v =
     (if \<not> t \<subseteq> set (columns df) \<or> length (cells df) \<le> i then Inl Enlargement
      else Inr (df\<lparr>cells := (cells df)
                  [i := map (\<lambda>(c, old). if c \<in> t then v else old)
                            (zip (columns df) (cells df ! i))]\<rparr>))"

text \<open>\<open>sorted(set(item for t in transactions for item in t))\<close>\<close>

definition all_items :: "transaction list \<Rightarrow> string list" where
  "all_items transactions = sorted_list_of_set (\<Union> (set transactions))"

text \<open>The loop \<open>for i, t in enumerate(transactions)\<close>, started at row \<open>i\<close>.\<close>

fun encode_from :: "one_hot \<Rightarrow> nat \<Rightarrow> transaction list \<Rightarrow> py_error + one_hot" where
  "encode_from df i [] = Inr df"
| "encode_from df i (t # ts) =
     (case loc_assign df i t 1 of
        Inl e \<Rightarrow> Inl e
      | Inr df' \<Rightarrow> encode_from df' (Suc i) ts)"

definition transactions_to_df :: "transaction list \<Rightarrow> py_error + one_hot" where
  "transactions_to_df transactions =
     encode_from (zero_frame (length transactions) (all_items transactions)) 0 transactions"

text \<open>The row the encoder is expected to produce for a transaction: the indicator of
  its items over the columns.\<close>

definition row_of :: "string list \<Rightarrow> transaction \<Rightarrow> int list" where
  "row_of cols t = map (\<lambda>c. if c \<in> t then 1 else 0) cols"

section \<open>Python string operations used by the script\<close>

text \<open>\<open>s.startswith(p)\<close> and \<open>s.endswith(p)\<close>\<close>

definition startswith :: "string \<Rightarrow> string \<Rightarrow> bool" where
  "startswith s p = (take (length p) s = p)"

definition endswith :: "string \<Rightarrow> string \<Rightarrow> bool" where
  "endswith s p = (length p \<le> length s \<and> drop (length s - length p) s = p)"

text \<open>\<open>sub in s\<close>: \<open>sub\<close> occurs in \<open>s\<close> at some position \<open>k\<close>.\<close>

definition str_contains :: "string \<Rightarrow> string \<Rightarrow> bool" where
  "str_contains s sub = list_ex (\<lambda>k. startswith (drop k s) sub) [0 ..< Suc (length s)]"

text \<open>
  \<open>s.split(sep)\<close> for a non-empty separator: the string is cut at the occurrences of
  \<open>sep\<close> found from left to right, without overlap.  \<open>cur\<close> holds, reversed, the
  characters of the token being read.  (With an empty separator Python raises
  \<open>ValueError\<close>; the script's separator is the literal \<open>", "\<close>.)
\<close>

function split_from :: "string \<Rightarrow> string \<Rightarrow> string \<Rightarrow> string list" where
  "split_from sep cur s =
     (if sep \<noteq> [] \<and> s \<noteq> [] \<and> startswith s sep
      then rev cur # split_from sep [] (drop (length sep) s)
      else (case s of
              [] \<Rightarrow> [rev cur]
            | c # cs \<Rightarrow> split_from sep (c # cur) cs))"
  by pat_completeness auto
termination
  by (relation "measure (\<lambda>(sep, cur, s). length s)") auto

declare split_from.simps [simp del]

text \<open>\<open>sep.join(tokens)\<close>, the inverse of splitting.\<close>

fun str_join :: "string \<Rightarrow> string list \<Rightarrow> string" where
  "str_join sep [] = []"
| "str_join sep [x] = x"
| "str_join sep (x # y # ys) = x @ sep @ str_join sep (y # ys)"

text \<open>
  \<open>s.replace(old, new)\<close>: every occurrence of \<open>old\<close>, found from left to right without
  overlap, is replaced.  With an empty \<open>old\<close>, \<open>new\<close> is put before every character and
  at the end.
\<close>

function replace_from :: "string \<Rightarrow> string \<Rightarrow> string \<Rightarrow> string" where
  "replace_from old new s =
     (if old \<noteq> [] \<and> s \<noteq> [] \<and> startswith s old
      then new @ replace_from old new (drop (length old) s)
      else (case s of
              [] \<Rightarrow> []
            | c # cs \<Rightarrow> c # replace_from old new cs))"
  by pat_completeness auto
termination
  by (relation "measure (\<lambda>(old, new, s). length s)") auto

declare replace_from.simps [simp del]

definition str_replace :: "string \<Rightarrow> string \<Rightarrow> string \<Rightarrow> string" where
  "str_replace s old new =
     (if old = [] then new @ concat (map (\<lambda>c. c # new) s) else replace_from old new s)"

text \<open>\<open>str(n)\<close> for an integer \<open>n\<close>\<close>

definition digit_char :: "nat \<Rightarrow> char" where
  "digit_char d = ''0123456789'' ! d"

function str_of_nat :: "nat \<Rightarrow> string" where
  "str_of_nat n = (if n < 10 then [digit_char n] else str_of_nat (n div 10) @ [digit_char (n mod 10)])"
  by pat_completeness auto
termination
  by (relation "measure (\<lambda>n. n)") auto

declare str_of_nat.simps [simp del]

definition str_of_int :: "int \<Rightarrow> string" where
  "str_of_int i = (if i < 0 then CHR ''-'' # str_of_nat (nat (- i)) else str_of_nat (nat i))"

section \<open>Loading the transactions (step 4)\<close>

text \<open>
  \<open>transactions = [set(t.split(", ")) for t in df["ItemsPurchased"]]\<close>, for the cells
  of the column that are strings.
\<close>

definition cell_tokens :: "string \<Rightarrow> string list" where
  "cell_tokens t = split_from '', '' [] t"

definition transaction_of_cell :: "string \<Rightarrow> transaction" where
  "transaction_of_cell t = set (cell_tokens t)"

definition load_transactions :: "string list \<Rightarrow> transaction list" where
  "load_transactions items_purchased = map transaction_of_cell items_purchased"

section \<open>Association rules and their merge (step 7)\<close>

text \<open>
  A row of the rule table returned by \<open>association_rules\<close>.  The script reads the columns
  \<open>antecedents\<close>, \<open>consequents\<close> (frozen sets of items) and \<open>confidence\<close>; the other
  metric columns (support, lift, ...) are the extension of the record.  A float that is
  finite is written as the rational number it denotes.
\<close>

record rule =
  antecedents :: "string set"
  consequents :: "string set"
  confidence :: rat

text \<open>A data frame as the list of its rows, each with its index label.\<close>

type_synonym 'r frame = "(int \<times> 'r) list"

text \<open>\<open>pd.concat([a, b])\<close>: the rows of \<open>a\<close>, then the rows of \<open>b\<close>; labels are kept.\<close>

definition pd_concat :: "'r frame \<Rightarrow> 'r frame \<Rightarrow> 'r frame" where
  "pd_concat a b = a @ b"

text \<open>
  \<open>df.drop_duplicates(subset=...)\<close> with the default \<open>keep='first'\<close>: a row is dropped
  when an earlier row has the same values in the columns of \<open>subset\<close>, here the
  function \<open>key\<close> of a row.  \<open>seen\<close> holds the
  values met so far.
\<close>

fun drop_duplicates_from :: "('r \<Rightarrow> 'k) \<Rightarrow> 'k set \<Rightarrow> 'r frame \<Rightarrow> 'r frame" where
  "drop_duplicates_from key seen [] = []"
| "drop_duplicates_from key seen (x # xs) =
     (if key (snd x) \<in> seen then drop_duplicates_from key seen xs
      else x # drop_duplicates_from key (insert (key (snd x)) seen) xs)"

definition drop_duplicates :: "('r \<Rightarrow> 'k) \<Rightarrow> 'r frame \<Rightarrow> 'r frame" where
  "drop_duplicates key df = drop_duplicates_from key {} df"

text \<open>\<open>subset=["antecedents", "consequents"]\<close>\<close>

definition rule_pair :: "'m rule_scheme \<Rightarrow> string set \<times> string set" where
  "rule_pair r = (antecedents r, consequents r)"

definition final_rules :: "'m rule_scheme frame \<Rightarrow> 'm rule_scheme frame \<Rightarrow> 'm rule_scheme frame" where
  "final_rules apriori_rules fpg_rules =
     drop_duplicates rule_pair (pd_concat apriori_rules fpg_rules)"

section \<open>Folder setup and dataset locator (start of the script, step 1)\<close>



text \<open>\<open>os.path.join(a, b)\<close>\<close>

definition path_join :: "string \<Rightarrow> string \<Rightarrow> string" where
  "path_join a b =
     (if startswith b ''/'' then b
      else if a = [] \<or> endswith a ''/'' then a @ b
      else a @ ''/'' @ b)"


definition output_dir :: "string \<Rightarrow> string" where
  "output_dir base = path_join base ''results''"










section \<open>Saving the results (step 6)\<close>

text \<open>\<open>prefix = selected_dataset.replace(".csv", "")\<close>\<close>

definition prefix_of :: "string \<Rightarrow> string" where
  "prefix_of selected_dataset = str_replace selected_dataset ''.csv'' []"

text \<open>
  The four \<open>to_csv\<close> calls, in the order of the script: the path written and the table
  written to it.
\<close>

datatype result_table = Apriori_itemsets | Apriori_rules | Fpg_itemsets | Fpg_rules

definition save_results :: "string \<Rightarrow> string \<Rightarrow> (string \<times> result_table) list" where
  "save_results base selected_dataset =
     [(output_dir base @ ''/'' @ prefix_of selected_dataset @ ''_apriori_itemsets.csv'', Apriori_itemsets),
      (output_dir base @ ''/'' @ prefix_of selected_dataset @ ''_apriori_rules.csv'', Apriori_rules),
      (output_dir base @ ''/'' @ prefix_of selected_dataset @ ''_fpgrowth_itemsets.csv'', Fpg_itemsets),
      (output_dir base @ ''/'' @ prefix_of selected_dataset @ ''_fpgrowth_rules.csv'', Fpg_rules)]"

text \<open>
  What the specification says the prefix is: the file name without its trailing
  extension, the rest of the name unchanged.  (This definition follows the words of the
  specification, not the script.)
\<close>

definition strip_extension :: "string \<Rightarrow> string" where
  "strip_extension name =
     (if endswith name ''.csv'' then take (length name - length ''.csv'') name else name)"

section \<open>Interactive parameter collector (steps 2 and 3)\<close>

















section \<open>Result reporter (step 5.5)\<close>

subsection \<open>Floating-point arithmetic\<close>

text \<open>
  The support and confidence columns hold finite binary64 floats; a float is written as
  the rational number it denotes.  An arithmetic operation gives the exact result
  rounded to the nearest float, ties to the even significand (53 bits, smallest exponent
  \<open>-1022\<close>); results of magnitude \<open>2^1024\<close> or more, which become infinite, do not arise
  from supports, confidences and row counts and are not modelled.
\<close>

text \<open>The nearest integer, ties to the even one; \<open>bitlen a\<close> is the number of binary digits
  of a positive integer.\<close>

definition round_half_even :: "rat \<Rightarrow> int" where
  "round_half_even x =
     (let f = \<lfloor>x\<rfloor>; d = x - of_int f
      in if d < 1 / 2 then f else if 1 / 2 < d then f + 1 else if even f then f else f + 1)"

function bitlen :: "int \<Rightarrow> int" where
  "bitlen a = (if a \<le> 0 then 0 else 1 + bitlen (a div 2))"
  by pat_completeness auto
termination
  by (relation "measure (\<lambda>a. nat a)") auto

declare bitlen.simps [simp del]

definition pow2 :: "int \<Rightarrow> rat" where
  "pow2 e = (if 0 \<le> e then 2 ^ nat e else 1 / 2 ^ nat (- e))"

text \<open>
  For \<open>x > 0\<close>, the exponent \<open>e\<close> with \<open>2^e \<le> x < 2^(e+1)\<close>: the difference of the bit
  lengths of numerator and denominator, or one less.
\<close>

definition exponent_of :: "rat \<Rightarrow> int" where
  "exponent_of x =
     (let d = bitlen (fst (quotient_of x)) - bitlen (snd (quotient_of x))
      in if pow2 d \<le> x then d else d - 1)"

definition fl64 :: "rat \<Rightarrow> rat" where
  "fl64 x =
     (if x = 0 then 0
      else (let u = pow2 (max (exponent_of \<bar>x\<bar>) (- 1022) - 52)
            in sgn x * of_int (round_half_even (\<bar>x\<bar> / u)) * u))"

definition float_mul :: "rat \<Rightarrow> rat \<Rightarrow> rat" where
  "float_mul a b = fl64 (a * b)"

text \<open>The conversion of an integer operand to a float.\<close>

definition float_of_int :: "int \<Rightarrow> rat" where
  "float_of_int n = fl64 (of_int n)"

text \<open>\<open>int(x)\<close> for a float \<open>x\<close>: the fraction is cut off, towards zero.\<close>

definition int_of_float :: "rat \<Rightarrow> int" where
  "int_of_float x = (if 0 \<le> x then \<lfloor>x\<rfloor> else \<lceil>x\<rceil>)"

text \<open>
  \<open>f"{x:.2f}"\<close>: the decimal with two fractional digits nearest to the exact value of
  \<open>x\<close>, ties to even, with a minus sign for a negative \<open>x\<close>.
\<close>

definition format_2f :: "rat \<Rightarrow> string" where
  "format_2f x =
     (let n = round_half_even (\<bar>x\<bar> * 100)
      in (if x < 0 then ''-'' else []) @ str_of_int (n div 100) @ ''.'' @
         [digit_char (nat ((n mod 100) div 10)), digit_char (nat (n mod 10))])"

subsection \<open>The two display functions\<close>

text \<open>A row of the itemset table returned by \<open>apriori\<close> and \<open>fpgrowth\<close>.\<close>

record itemset =
  itemsets :: "string set"
  support :: rat

text \<open>\<open>df.head(n)\<close>: the first \<open>n\<close> rows; for a negative \<open>n\<close>, all rows but the last \<open>-n\<close>.\<close>

definition df_head :: "int \<Rightarrow> 'r frame \<Rightarrow> 'r frame" where
  "df_head n df = (if 0 \<le> n then take (nat n) df else take (length df - nat (- n)) df)"

text \<open>\<open>count = int(row["support"] * len(df_onehot))\<close>\<close>

definition itemset_count :: "nat \<Rightarrow> 'm itemset_scheme \<Rightarrow> int" where
  "itemset_count len_df_onehot row =
     int_of_float (float_mul (support row) (float_of_int (int len_df_onehot)))"

text \<open>
  \<open>display_top_itemsets(itemsets_df, table_name, top_n=10)\<close>.  The result is the list of
  the strings printed, one per \<open>print\<close> call.  \<open>str_items\<close> is \<open>str(list(s))\<close> for a frozen
  set \<open>s\<close> of items: the order in which a set is listed is the interpreter's.
  \<open>len_df_onehot\<close> is the global \<open>len(df_onehot)\<close>.
\<close>

definition display_top_itemsets ::
  "(string set \<Rightarrow> string) \<Rightarrow> nat \<Rightarrow> 'm itemset_scheme frame \<Rightarrow> string \<Rightarrow> int \<Rightarrow> string list" where
  "display_top_itemsets str_items len_df_onehot itemsets_df table_name top_n =
     ([CHR 0x0A] @ table_name @ '':'') #
     ''Itemset | Count'' #
     map (\<lambda>(label, row).
            str_items (itemsets row) @ '' : '' @ str_of_int (itemset_count len_df_onehot row))
         (df_head top_n itemsets_df)"

definition default_top_n :: int where
  "default_top_n = 10"

text \<open>
  \<open>display_rules(rules_df)\<close>; \<open>i\<close> in \<open>for i, row in rules_df.iterrows()\<close> is the index
  label of the row.
\<close>

definition display_rules :: "(string set \<Rightarrow> string) \<Rightarrow> 'm rule_scheme frame \<Rightarrow> string list" where
  "display_rules str_items rules_df =
     ([CHR 0x0A] @ ''Final Association Rules:'') #
     (if rules_df = [] then [''No rules found for given thresholds.'']
      else concat (map (\<lambda>(i, row).
             [''Rule '' @ str_of_int (i + 1) @ '': '' @ str_items (antecedents row) @
                '' -> '' @ str_items (consequents row),
              ''Confidence: '' @ format_2f (float_mul (confidence row) 100) @ ''%'' @ [CHR 0x0A]])
           rules_df))"

text \<open>
  What the specification says the count is: \<open>round(support \<times> transaction_count)\<close>, the
  nearest integer, ties to even as Python's \<open>round\<close> does.  (This definition follows the
  words of the specification, not the script.)
\<close>

definition rounded_count :: "nat \<Rightarrow> 'm itemset_scheme \<Rightarrow> int" where
  "rounded_count len_df_onehot row =
     round_half_even (float_mul (support row) (float_of_int (int len_df_onehot)))"

text \<open>
  One way \<open>str(list(s))\<close> can come out, used to run the display functions: the items in
  increasing order, each in single quotes.
\<close>

definition str_items_sorted :: "string set \<Rightarrow> string" where
  "str_items_sorted s =
     ''['' @ str_join '', '' (map (\<lambda>item. [CHR 0x27] @ item @ [CHR 0x27]) (sorted_list_of_set s)) @ '']''"

section \<open>Properties of the transaction encoder\<close>

lemma encode_from_rows:
  assumes "\<forall>t \<in> set ts. t \<subseteq> set (columns df)"
    and "i + length ts \<le> length (cells df)"
  shows "\<exists>df'. encode_from df i ts = Inr df' \<and> columns df' = columns df \<and>
           length (cells df') = length (cells df) \<and>
           (\<forall>k < length (cells df). cells df' ! k =
              (if i \<le> k \<and> k < i + length ts
               then map (\<lambda>(c, old). if c \<in> ts ! (k - i) then 1 else old)
                        (zip (columns df) (cells df ! k))
               else cells df ! k))"
  using assms
proof (induction ts arbitrary: df i)
  case Nil
  then show ?case by auto
next
  case (Cons t ts)
  let ?row = "map (\<lambda>(c, old). if c \<in> t then 1 else old) (zip (columns df) (cells df ! i))"
  let ?df1 = "df\<lparr>cells := (cells df)[i := ?row]\<rparr>"
  from Cons.prems have sub: "t \<subseteq> set (columns df)" and i: "i < length (cells df)"
    by auto
  then have step: "loc_assign df i t 1 = Inr ?df1"
    by (simp add: loc_assign_def)
  have "\<forall>t \<in> set ts. t \<subseteq> set (columns ?df1)"
    using Cons.prems by simp
  moreover have "Suc i + length ts \<le> length (cells ?df1)"
    using Cons.prems by simp
  ultimately obtain df' where df':
    "encode_from ?df1 (Suc i) ts = Inr df'" "columns df' = columns ?df1"
    "length (cells df') = length (cells ?df1)"
    "\<forall>k < length (cells ?df1). cells df' ! k =
        (if Suc i \<le> k \<and> k < Suc i + length ts
         then map (\<lambda>(c, old). if c \<in> ts ! (k - Suc i) then 1 else old)
                  (zip (columns ?df1) (cells ?df1 ! k))
         else cells ?df1 ! k)"
    using Cons.IH[of ?df1 "Suc i"] by blast
  have "cells df' ! k =
          (if i \<le> k \<and> k < i + length (t # ts)
           then map (\<lambda>(c, old). if c \<in> (t # ts) ! (k - i) then 1 else old)
                    (zip (columns df) (cells df ! k))
           else cells df ! k)" if k: "k < length (cells df)" for k
  proof (cases "k = i")
    case True
    then show ?thesis using df'(4) i by simp
  next
    case False
    then show ?thesis using df'(4) k i
      by (auto simp: nth_Cons' Suc_diff_Suc)
  qed
  then show ?case using step df' by simp
qed

lemma row_of_zero:
  "map (\<lambda>(c, old). if c \<in> t then 1 else old) (zip cols (replicate (length cols) 0))
     = row_of cols t"
  by (induction cols) (simp_all add: row_of_def)

lemma transactions_to_df_eq:
  assumes "\<forall>t \<in> set ts. finite t"
  shows "transactions_to_df ts =
           Inr \<lparr>columns = all_items ts, cells = map (row_of (all_items ts)) ts\<rparr>"
proof -
  let ?cols = "all_items ts"
  let ?df = "zero_frame (length ts) ?cols"
  have fin: "finite (\<Union> (set ts))" using assms by blast
  then have cols: "set ?cols = \<Union> (set ts)" by (simp add: all_items_def)
  then have "\<forall>t \<in> set ts. t \<subseteq> set (columns ?df)"
    by (auto simp: zero_frame_def)
  moreover have "0 + length ts \<le> length (cells ?df)" by (simp add: zero_frame_def)
  ultimately obtain df' where df':
    "encode_from ?df 0 ts = Inr df'" "columns df' = columns ?df"
    "length (cells df') = length (cells ?df)"
    "\<forall>k < length (cells ?df). cells df' ! k =
        (if 0 \<le> k \<and> k < 0 + length ts
         then map (\<lambda>(c, old). if c \<in> ts ! (k - 0) then 1 else old)
                  (zip (columns ?df) (cells ?df ! k))
         else cells ?df ! k)"
    using encode_from_rows[of ts ?df 0] by blast
  have "cells df' = map (row_of ?cols) ts"
  proof (rule nth_equalityI)
    show "length (cells df') = length (map (row_of ?cols) ts)"
      using df'(3) by (simp add: zero_frame_def)
  next
    fix k assume "k < length (cells df')"
    then have k: "k < length ts" using df'(3) by (simp add: zero_frame_def)
    then show "cells df' ! k = map (row_of ?cols) ts ! k"
      using df'(4) by (simp add: zero_frame_def row_of_zero)
  qed
  moreover have "columns df' = ?cols" using df'(2) by (simp add: zero_frame_def)
  ultimately have "df' = \<lparr>columns = ?cols, cells = map (row_of ?cols) ts\<rparr>" by simp
  then show ?thesis using df'(1) by (simp add: transactions_to_df_def)
qed

lemma sum_list_row_of:
  assumes "distinct cols" and "finite t" and "t \<subseteq> set cols"
  shows "sum_list (row_of cols t) = int (card t)"
proof -
  have "sum_list (row_of cols t) = int (length (filter (\<lambda>c. c \<in> t) cols))"
    by (induction cols) (simp_all add: row_of_def)
  also have "length (filter (\<lambda>c. c \<in> t) cols) = card (set (filter (\<lambda>c. c \<in> t) cols))"
    using distinct_card[of "filter (\<lambda>c. c \<in> t) cols"] assms(1) by simp
  also have "set (filter (\<lambda>c. c \<in> t) cols) = t" using assms(3) by auto
  finally show ?thesis .
qed

lemma all_items_set:
  assumes "\<forall>t \<in> set ts. finite t"
  shows "set (all_items ts) = \<Union> (set ts)" and "distinct (all_items ts)"
proof -
  have "finite (\<Union> (set ts))" using assms by blast
  then show "set (all_items ts) = \<Union> (set ts)" by (simp add: all_items_def)
  show "distinct (all_items ts)" by (simp add: all_items_def)
qed

text \<open>
  Claim C1.  For every sequence of finite transactions the encoder returns a table (it
  does not raise) whose columns are the distinct items of all transactions in strictly
  increasing lexicographic order, with one row per transaction; the cell at row \<open>i\<close>,
  column \<open>j\<close> is 1 if item \<open>j\<close> belongs to transaction \<open>i\<close> and 0 otherwise; the sum
  of row \<open>i\<close> is the cardinality of transaction \<open>i\<close>, and the number of columns is the
  number of distinct items.
\<close>

theorem transactions_to_df_one_hot:
  assumes "\<forall>t \<in> set transactions. finite t"
  shows "\<exists>df. transactions_to_df transactions = Inr df \<and>
           columns df = sorted_list_of_set (\<Union> (set transactions)) \<and>
           sorted_wrt (<) (columns df) \<and>
           set (columns df) = \<Union> (set transactions) \<and>
           length (columns df) = card (\<Union> (set transactions)) \<and>
           length (cells df) = length transactions \<and>
           (\<forall>i < length transactions.
              length (cells df ! i) = length (columns df) \<and>
              (\<forall>j < length (columns df).
                 cells df ! i ! j = (if columns df ! j \<in> transactions ! i then 1 else 0)) \<and>
              sum_list (cells df ! i) = int (card (transactions ! i)))"
proof -
  let ?cols = "all_items transactions"
  let ?df = "\<lparr>columns = ?cols, cells = map (row_of ?cols) transactions\<rparr>"
  have eq: "transactions_to_df transactions = Inr ?df"
    using assms by (rule transactions_to_df_eq)
  have cols: "set ?cols = \<Union> (set transactions)" and dist: "distinct ?cols"
    using all_items_set[OF assms] by auto
  have rows: "length (cells ?df ! i) = length (columns ?df) \<and>
              (\<forall>j < length (columns ?df).
                 cells ?df ! i ! j = (if columns ?df ! j \<in> transactions ! i then 1 else 0)) \<and>
              sum_list (cells ?df ! i) = int (card (transactions ! i))"
    if i: "i < length transactions" for i
  proof -
    have mem: "transactions ! i \<in> set transactions" using i by simp
    then have "finite (transactions ! i)" and "transactions ! i \<subseteq> set ?cols"
      using assms cols by auto
    then have "sum_list (row_of ?cols (transactions ! i)) = int (card (transactions ! i))"
      using dist by (simp add: sum_list_row_of)
    then show ?thesis using i by (simp add: row_of_def)
  qed
  have "columns ?df = sorted_list_of_set (\<Union> (set transactions))"
    by (simp add: all_items_def)
  moreover have "sorted_wrt (<) (columns ?df)"
    by (simp add: all_items_def strict_sorted_list_of_set)
  moreover have "set (columns ?df) = \<Union> (set transactions)" using cols by simp
  moreover have "length (columns ?df) = card (\<Union> (set transactions))"
    by (simp add: all_items_def)
  moreover have "length (cells ?df) = length transactions" by simp
  ultimately show ?thesis using eq rows by blast
qed

text \<open>The theorem of C1 at three transactions, one of them empty.\<close>

theorem transactions_to_df_one_hot_witness:
  "finite {''bread'', ''milk''} \<and> finite ({} :: string set) \<and> finite {''eggs'', ''bread''} \<and>
   (\<exists>df. transactions_to_df [{''bread'', ''milk''}, {}, {''eggs'', ''bread''}] = Inr df \<and>
      columns df = [''bread'', ''eggs'', ''milk''] \<and>
      cells df = [[1, 0, 1], [0, 0, 0], [1, 1, 0]] \<and>
      length (columns df) = card (\<Union> (set [{''bread'', ''milk''}, {}, {''eggs'', ''bread''}])) \<and>
      sum_list (cells df ! 0) = int (card {''bread'', ''milk''}))"
proof -
  let ?ts = "[{''bread'', ''milk''}, {}, {''eggs'', ''bread''}] :: transaction list"
  have fin: "\<forall>t \<in> set ?ts. finite t" by simp
  have ev: "transactions_to_df ?ts =
      Inr \<lparr>columns = [''bread'', ''eggs'', ''milk''], cells = [[1, 0, 1], [0, 0, 0], [1, 1, 0]]\<rparr>"
    by code_simp
  from transactions_to_df_one_hot[OF fin] obtain df where df:
    "transactions_to_df ?ts = Inr df"
    "length (columns df) = card (\<Union> (set ?ts))"
    "\<forall>i < length ?ts. sum_list (cells df ! i) = int (card (?ts ! i))"
    by blast
  from df(3) have "sum_list (cells df ! 0) = int (card (?ts ! 0))" by simp
  then show ?thesis using ev df(1,2) by simp
qed

text \<open>
  Claim C9.  The encoder is total on degenerate inputs: the empty sequence gives the
  table with no column and no row, and in any sequence of finite transactions an empty
  transaction gives a row of zeros; in both cases a table is returned, not an error.
\<close>

theorem transactions_to_df_degenerate:
  "transactions_to_df [] = Inr \<lparr>columns = [], cells = []\<rparr> \<and>
   ((\<forall>t \<in> set transactions. finite t) \<longrightarrow>
      (\<exists>df. transactions_to_df transactions = Inr df \<and>
         (\<forall>i < length transactions. transactions ! i = {} \<longrightarrow>
            cells df ! i = replicate (length (columns df)) 0)))"
proof (intro conjI impI)
  show "transactions_to_df [] = Inr \<lparr>columns = [], cells = []\<rparr>"
    by (simp add: transactions_to_df_def zero_frame_def all_items_def)
next
  assume fin: "\<forall>t \<in> set transactions. finite t"
  let ?cols = "all_items transactions"
  have "row_of ?cols {} = replicate (length ?cols) 0"
    by (simp add: row_of_def map_replicate_const)
  then show "\<exists>df. transactions_to_df transactions = Inr df \<and>
         (\<forall>i < length transactions. transactions ! i = {} \<longrightarrow>
            cells df ! i = replicate (length (columns df)) 0)"
    using transactions_to_df_eq[OF fin] by simp
qed

text \<open>The theorem of C9 at a sequence whose second transaction is empty.\<close>

theorem transactions_to_df_degenerate_witness:
  "finite {''milk''} \<and> finite ({} :: string set) \<and>
   (\<exists>df. transactions_to_df [{''milk''}, {}] = Inr df \<and> cells df ! 1 = replicate (length (columns df)) 0 \<and>
      columns df = [''milk''] \<and> cells df = [[1], [0]])"
proof -
  let ?ts = "[{''milk''}, {}] :: transaction list"
  have ev: "transactions_to_df ?ts = Inr \<lparr>columns = [''milk''], cells = [[1], [0]]\<rparr>"
    by code_simp
  have "(\<forall>t \<in> set ?ts. finite t) \<longrightarrow>
      (\<exists>df. transactions_to_df ?ts = Inr df \<and>
         (\<forall>i < length ?ts. ?ts ! i = {} \<longrightarrow> cells df ! i = replicate (length (columns df)) 0))"
    using transactions_to_df_degenerate[of ?ts] by blast
  then obtain df where df: "transactions_to_df ?ts = Inr df"
    "\<forall>i < length ?ts. ?ts ! i = {} \<longrightarrow> cells df ! i = replicate (length (columns df)) 0"
    by auto
  from df(2) have "cells df ! 1 = replicate (length (columns df)) 0" by simp
  then show ?thesis using ev df(1) by simp
qed

section \<open>Properties of the transaction parser\<close>

lemma split_from_nonempty: "split_from sep cur s \<noteq> []"
  by (induction sep cur s rule: split_from.induct)
     (subst split_from.simps, auto split: list.splits)

lemma str_join_Cons: "ys \<noteq> [] \<Longrightarrow> str_join sep (x # ys) = x @ sep @ str_join sep ys"
  by (cases ys) simp_all

lemma str_join_split_from: "str_join sep (split_from sep cur s) = rev cur @ s"
proof (induction sep cur s rule: split_from.induct)
  case (1 sep cur s)
  show ?case
  proof (cases "sep \<noteq> [] \<and> s \<noteq> [] \<and> startswith s sep")
    case True
    then have s: "s = sep @ drop (length sep) s"
      by (metis append_take_drop_id startswith_def)
    have "split_from sep cur s = rev cur # split_from sep [] (drop (length sep) s)"
      using True by (subst split_from.simps) simp
    then have "str_join sep (split_from sep cur s)
                 = rev cur @ sep @ str_join sep (split_from sep [] (drop (length sep) s))"
      by (simp add: str_join_Cons split_from_nonempty)
    also have "\<dots> = rev cur @ sep @ drop (length sep) s"
      using "1.IH"(1)[OF True] by simp
    finally show ?thesis using s by metis
  next
    case False
    show ?thesis
    proof (cases s)
      case Nil
      then show ?thesis using False by (subst split_from.simps) simp
    next
      case (Cons c cs)
      have "split_from sep cur s = split_from sep (c # cur) cs"
        using False Cons by (subst split_from.simps) auto
      then show ?thesis using "1.IH"(2)[OF False Cons] Cons by simp
    qed
  qed
qed

lemma count_column:
  assumes "distinct cols" and "tok \<in> set cols" and "tok \<in> t"
  shows "length (filter (\<lambda>(col, v). col = tok \<and> v = 1) (zip cols (row_of cols t))) = 1"
proof -
  have "filter (\<lambda>(col, v). col = tok \<and> v = (1::int)) (zip cols (row_of cols t))
          = map (\<lambda>c. (c, 1)) (filter (\<lambda>c. c = tok) cols)"
    using assms(3) by (induction cols) (auto simp: row_of_def)
  moreover have "length (filter (\<lambda>c. c = tok) cols) = 1"
    using assms(1,2) by (induction cols) (auto simp: filter_empty_conv)
  ultimately show ?thesis by simp
qed

text \<open>
  No token of a split contains the separator, and a list of separator-free tokens is
  what splitting their join returns (for a separator of two different characters).
\<close>

lemma str_contains_iff:
  "str_contains s sub = (\<exists>k \<le> length s. startswith (drop k s) sub)"
  unfolding str_contains_def list_ex_iff set_upt atLeast0LessThan lessThan_Suc_atMost
  by auto

lemma startswith_append:
  assumes "startswith (drop k u) sep" and "k \<le> length u"
  shows "startswith (drop k (u @ s)) sep"
proof -
  from assms(1) have t: "take (length sep) (drop k u) = sep" by (simp add: startswith_def)
  have "length sep \<le> length (drop k u)"
    using arg_cong[OF t, of length] by simp
  then show ?thesis using t assms(2) by (simp add: startswith_def)
qed

lemma no_occurrence_token:
  assumes "sep \<noteq> []" and "\<forall>k < length u. \<not> startswith (drop k (u @ s)) sep"
  shows "\<not> str_contains u sep"
proof
  assume "str_contains u sep"
  then obtain k where k: "k \<le> length u" "startswith (drop k u) sep"
    by (auto simp: str_contains_iff)
  have "k \<noteq> length u" using k(2) assms(1) by (auto simp: startswith_def)
  then have "k < length u" using k(1) by simp
  moreover have "startswith (drop k (u @ s)) sep" using k by (intro startswith_append) auto
  ultimately show False using assms(2) by blast
qed

lemma split_from_tokens_free:
  assumes "sep \<noteq> []" and "\<forall>k < length cur. \<not> startswith (drop k (rev cur @ s)) sep"
  shows "\<forall>tok \<in> set (split_from sep cur s). \<not> str_contains tok sep"
  using assms
proof (induction sep cur s rule: split_from.induct)
  case (1 sep cur s)
  have tok: "\<not> str_contains (rev cur) sep"
    using no_occurrence_token[of sep "rev cur" s] "1.prems" by simp
  show ?case
  proof (cases "sep \<noteq> [] \<and> s \<noteq> [] \<and> startswith s sep")
    case True
    have eq: "split_from sep cur s = rev cur # split_from sep [] (drop (length sep) s)"
      using True by (subst split_from.simps) simp
    have "\<forall>tok \<in> set (split_from sep [] (drop (length sep) s)). \<not> str_contains tok sep"
      using "1.IH"(1)[OF True] "1.prems"(1) by simp
    then show ?thesis using eq tok by simp
  next
    case False
    show ?thesis
    proof (cases s)
      case Nil
      then have "split_from sep cur s = [rev cur]" by (subst split_from.simps) simp
      then show ?thesis using tok by simp
    next
      case (Cons c cs)
      have eq: "split_from sep cur s = split_from sep (c # cur) cs"
        using False Cons by (subst split_from.simps) auto
      have ns: "\<not> startswith (c # cs) sep" using False Cons "1.prems"(1) by simp
      have "\<forall>k < length (c # cur). \<not> startswith (drop k (rev (c # cur) @ cs)) sep"
      proof (intro allI impI)
        fix k assume "k < length (c # cur)"
        then consider "k < length cur" | "k = length cur" by fastforce
        then show "\<not> startswith (drop k (rev (c # cur) @ cs)) sep"
        proof cases
          case 1
          then show ?thesis using "1.prems"(2) Cons by simp
        next
          case 2
          then show ?thesis using ns by simp
        qed
      qed
      then show ?thesis using "1.IH"(2)[OF False Cons "1.prems"(1)] eq by simp
    qed
  qed
qed

lemma str_contains_Cons: "str_contains t' sep \<Longrightarrow> str_contains (c # t') sep"
proof -
  assume "str_contains t' sep"
  then obtain k where "k \<le> length t'" "startswith (drop k t') sep"
    by (auto simp: str_contains_iff)
  then have "Suc k \<le> length (c # t')" "startswith (drop (Suc k) (c # t')) sep" by simp_all
  then show ?thesis unfolding str_contains_iff by blast
qed

lemma split_from_last_token:
  assumes "sep \<noteq> []" and "\<not> str_contains t sep"
  shows "split_from sep cur t = [rev cur @ t]"
  using assms(2)
proof (induction t arbitrary: cur)
  case Nil
  then show ?case by (subst split_from.simps) simp
next
  case (Cons c t)
  have "\<not> startswith (c # t) sep"
    using Cons.prems by (auto simp: str_contains_iff dest: spec[of _ 0])
  then have "split_from sep cur (c # t) = split_from sep (c # cur) t"
    by (subst split_from.simps) simp
  moreover have "\<not> str_contains t sep" using Cons.prems str_contains_Cons by blast
  ultimately show ?case using Cons.IH by simp
qed

lemma split_from_first_token:
  assumes "a \<noteq> b" and "\<not> str_contains t [a, b]"
  shows "split_from [a, b] cur (t @ [a, b] @ rest) = (rev cur @ t) # split_from [a, b] [] rest"
  using assms(2)
proof (induction t arbitrary: cur)
  case Nil
  show ?case by (subst split_from.simps) (simp add: startswith_def)
next
  case (Cons c t)
  have ns: "\<not> startswith (c # t @ [a, b] @ rest) [a, b]"
  proof
    assume s: "startswith (c # t @ [a, b] @ rest) [a, b]"
    show False
    proof (cases t)
      case Nil
      then show False using s assms(1) by (simp add: startswith_def)
    next
      case (Cons d t')
      then have "startswith (drop 0 (c # t)) [a, b]" using s by (simp add: startswith_def)
      then have "str_contains (c # t) [a, b]" unfolding str_contains_iff by blast
      then show False using Cons.prems by simp
    qed
  qed
  then have "split_from [a, b] cur ((c # t) @ [a, b] @ rest) =
             split_from [a, b] (c # cur) (t @ [a, b] @ rest)"
    by (subst split_from.simps) simp
  moreover have "\<not> str_contains t [a, b]" using Cons.prems str_contains_Cons by blast
  ultimately show ?case using Cons.IH by simp
qed

lemma split_from_join:
  assumes "a \<noteq> b" and "toks \<noteq> []" and "\<forall>t \<in> set toks. \<not> str_contains t [a, b]"
  shows "split_from [a, b] [] (str_join [a, b] toks) = toks"
  using assms(2,3)
proof (induction toks)
  case Nil
  then show ?case by simp
next
  case (Cons x ys)
  show ?case
  proof (cases ys)
    case Nil
    then show ?thesis using Cons.prems split_from_last_token[of "[a, b]" x "[]"] by simp
  next
    case (Cons y ys')
    have "split_from [a, b] [] (x @ [a, b] @ str_join [a, b] ys) =
            x # split_from [a, b] [] (str_join [a, b] ys)"
      using split_from_first_token[OF assms(1), of x "[]"] Cons.prems by simp
    moreover have "split_from [a, b] [] (str_join [a, b] ys) = ys"
      using Cons.IH Cons.prems Cons by simp
    ultimately show ?thesis using Cons by simp
  qed
qed


text \<open>
  Claim C10.  The transaction derived from a cell is the set of the cell's tokens, and
  the tokens are the \<open>", "\<close>-separated pieces of the cell: joined by \<open>", "\<close> they give
  back the cell, none of them contains \<open>", "\<close>, and they are the only non-empty list
  with these two properties.  The transaction is finite and has at most as many elements
  as there are tokens.  In the table encoded from the loaded transactions, every token
  of cell \<open>i\<close>, repeated or not, has exactly one column holding a 1 in row \<open>i\<close>, and the
  row sums to the number of distinct tokens.
\<close>

theorem transaction_of_cell_unique:
  "transaction_of_cell c = set (cell_tokens c) \<and>
   str_join '', '' (cell_tokens c) = c \<and>
   (\<forall>tok \<in> set (cell_tokens c). \<not> str_contains tok '', '') \<and>
   (\<forall>toks. toks \<noteq> [] \<and> (\<forall>t \<in> set toks. \<not> str_contains t '', '') \<and>
      str_join '', '' toks = c \<longrightarrow> cell_tokens c = toks) \<and>
   finite (transaction_of_cell c) \<and>
   card (transaction_of_cell c) \<le> length (cell_tokens c) \<and>
   (\<exists>df. transactions_to_df (load_transactions items_purchased) = Inr df \<and>
      (\<forall>i < length items_purchased.
         sum_list (cells df ! i) = int (card (set (cell_tokens (items_purchased ! i)))) \<and>
         (\<forall>tok \<in> set (cell_tokens (items_purchased ! i)).
            length (filter (\<lambda>(col, v). col = tok \<and> v = 1)
                      (zip (columns df) (cells df ! i))) = 1)))"
proof (intro conjI)
  show "transaction_of_cell c = set (cell_tokens c)" by (simp add: transaction_of_cell_def)
  show "str_join '', '' (cell_tokens c) = c"
    using str_join_split_from[of "'', ''" "[]" c] by (simp add: cell_tokens_def)
  show "\<forall>tok \<in> set (cell_tokens c). \<not> str_contains tok '', ''"
    using split_from_tokens_free[of "'', ''" "[]" c] by (simp add: cell_tokens_def)
  show "\<forall>toks. toks \<noteq> [] \<and> (\<forall>t \<in> set toks. \<not> str_contains t '', '') \<and>
      str_join '', '' toks = c \<longrightarrow> cell_tokens c = toks"
  proof (intro allI impI)
    fix toks
    assume a: "toks \<noteq> [] \<and> (\<forall>t \<in> set toks. \<not> str_contains t '', '') \<and> str_join '', '' toks = c"
    have "split_from [CHR '','', CHR '' ''] [] (str_join [CHR '','', CHR '' ''] toks) = toks"
      using a by (intro split_from_join) simp_all
    then show "cell_tokens c = toks" using a by (simp add: cell_tokens_def)
  qed
  show "finite (transaction_of_cell c)" by (simp add: transaction_of_cell_def)
  show "card (transaction_of_cell c) \<le> length (cell_tokens c)"
    by (simp add: transaction_of_cell_def card_length)
  let ?ts = "load_transactions items_purchased"
  let ?cols = "all_items ?ts"
  let ?df = "\<lparr>columns = ?cols, cells = map (row_of ?cols) ?ts\<rparr>"
  have fin: "\<forall>t \<in> set ?ts. finite t"
    by (auto simp: load_transactions_def transaction_of_cell_def)
  have eq: "transactions_to_df ?ts = Inr ?df" using fin by (rule transactions_to_df_eq)
  have cols: "set ?cols = \<Union> (set ?ts)" and dist: "distinct ?cols"
    using all_items_set[OF fin] by auto
  have "sum_list (cells ?df ! i) = int (card (set (cell_tokens (items_purchased ! i)))) \<and>
        (\<forall>tok \<in> set (cell_tokens (items_purchased ! i)).
            length (filter (\<lambda>(col, v). col = tok \<and> v = 1)
                      (zip (columns ?df) (cells ?df ! i))) = 1)"
    if i: "i < length items_purchased" for i
  proof -
    let ?t = "set (cell_tokens (items_purchased ! i))"
    have ti: "?ts ! i = ?t" using i by (simp add: load_transactions_def transaction_of_cell_def)
    have "?ts ! i \<in> set ?ts" using i by (simp add: load_transactions_def)
    then have sub: "?t \<subseteq> set ?cols" using cols ti by auto
    have row: "cells ?df ! i = row_of ?cols ?t"
      using i ti by (simp add: load_transactions_def)
    have "sum_list (row_of ?cols ?t) = int (card ?t)"
      using dist sub by (simp add: sum_list_row_of)
    moreover have "length (filter (\<lambda>(col, v). col = tok \<and> v = 1)
                      (zip ?cols (row_of ?cols ?t))) = 1" if "tok \<in> ?t" for tok
      using count_column[OF dist _ that] sub that by blast
    ultimately show ?thesis using row by simp
  qed
  then show "\<exists>df. transactions_to_df ?ts = Inr df \<and>
      (\<forall>i < length items_purchased.
         sum_list (cells df ! i) = int (card (set (cell_tokens (items_purchased ! i)))) \<and>
         (\<forall>tok \<in> set (cell_tokens (items_purchased ! i)).
            length (filter (\<lambda>(col, v). col = tok \<and> v = 1)
                      (zip (columns df) (cells df ! i))) = 1))"
    using eq by blast
qed


text \<open>The theorem of C10 at a cell that repeats a token.\<close>

theorem transaction_of_cell_unique_witness:
  "\<not> str_contains ''milk'' '', '' \<and> \<not> str_contains ''bread'' '', '' \<and>
   str_join '', '' [''milk'', ''bread'', ''milk''] = ''milk, bread, milk'' \<and>
   cell_tokens ''milk, bread, milk'' = [''milk'', ''bread'', ''milk''] \<and>
   transaction_of_cell ''milk, bread, milk'' = {''milk'', ''bread''} \<and>
   card (transaction_of_cell ''milk, bread, milk'') = 2 \<and>
   (\<exists>df. transactions_to_df (load_transactions [''milk, bread, milk'']) = Inr df \<and>
      columns df = [''bread'', ''milk''] \<and> cells df = [[1, 1]] \<and>
      length (filter (\<lambda>(col, v). col = ''milk'' \<and> v = 1) (zip (columns df) (cells df ! 0))) = 1)"
proof -
  let ?c = "''milk, bread, milk''"
  let ?toks = "[''milk'', ''bread'', ''milk'']"
  have m: "\<not> str_contains ''milk'' '', ''" by code_simp
  have b: "\<not> str_contains ''bread'' '', ''" by code_simp
  have j: "str_join '', '' ?toks = ?c" by simp
  have pre: "?toks \<noteq> [] \<and> (\<forall>t \<in> set ?toks. \<not> str_contains t '', '') \<and> str_join '', '' ?toks = ?c"
    using m b j by simp
  have toks: "cell_tokens ?c = ?toks"
    using transaction_of_cell_unique[of ?c "[?c]"] pre by blast
  have ev: "transactions_to_df (load_transactions [?c]) =
      Inr \<lparr>columns = [''bread'', ''milk''], cells = [[1, 1]]\<rparr>"
    by code_simp
  have tr: "transaction_of_cell ?c = {''milk'', ''bread''}"
    by (auto simp: transaction_of_cell_def toks)
  have c2: "card {''milk'', ''bread''} = 2" by simp
  have 6: "card (transaction_of_cell ?c) = 2" unfolding tr by (rule c2)
  have 7: "\<exists>df. transactions_to_df (load_transactions [?c]) = Inr df \<and>
      columns df = [''bread'', ''milk''] \<and> cells df = [[1, 1]] \<and>
      length (filter (\<lambda>(col, v). col = ''milk'' \<and> v = 1) (zip (columns df) (cells df ! 0))) = 1"
    unfolding ev by simp
  show ?thesis by (intro conjI m b j toks tr 6 7)
qed

section \<open>Properties of the result persister\<close>

text \<open>Four distinct paths are written for every dataset name.\<close>

lemma save_results_four:
  "length (save_results base selected_dataset) = 4 \<and>
   distinct (map fst (save_results base selected_dataset))"
  by (simp add: save_results_def)

text \<open>When \<open>.csv\<close> occurs only at the end of the name, the prefix is the name without it.\<close>

lemma replace_from_no_occurrence:
  assumes "old \<noteq> []" and "\<forall>k < length stem. \<not> startswith (drop k (stem @ old)) old"
  shows "replace_from old new (stem @ old) = stem @ new"
  using assms(2)
proof (induction stem)
  case Nil
  have "startswith old old" by (simp add: startswith_def)
  then have "replace_from old new old = new @ replace_from old new []"
    using assms(1) by (subst replace_from.simps) simp
  also have "replace_from old new [] = []" by (subst replace_from.simps) simp
  finally show ?case by simp
next
  case (Cons c stem)
  from Cons.prems have "\<not> startswith (drop 0 ((c # stem) @ old)) old" by blast
  then have no: "\<not> startswith (c # stem @ old) old" by simp
  have "\<forall>k < length stem. \<not> startswith (drop k (stem @ old)) old"
  proof (intro allI impI)
    fix k assume "k < length stem"
    then have "\<not> startswith (drop (Suc k) ((c # stem) @ old)) old"
      using Cons.prems by (metis Suc_less_eq length_Cons)
    then show "\<not> startswith (drop k (stem @ old)) old" by simp
  qed
  then have IH: "replace_from old new (stem @ old) = stem @ new" by (rule Cons.IH)
  have "replace_from old new (c # stem @ old) = c # replace_from old new (stem @ old)"
    using no by (subst replace_from.simps) simp
  then show ?case using IH by simp
qed

lemma prefix_of_single_extension:
  assumes "\<forall>k < length stem. \<not> startswith (drop k (stem @ ''.csv'')) ''.csv''"
  shows "prefix_of (stem @ ''.csv'') = stem"
  using replace_from_no_occurrence[of "''.csv''" stem "[]"] assms
  by (simp add: prefix_of_def str_replace_def)

text \<open>
  Claim C4 (where the script departs from it).  For the dataset \<open>sales.csv.old.csv\<close>,
  which ends in \<open>.csv\<close> and so can be selected, the script's prefix is \<open>sales.old\<close>:
  the inner \<open>.csv\<close> is removed as well, whereas stripping the extension gives
  \<open>sales.csv.old\<close>.  The four files are then written under the shortened prefix.
\<close>

theorem prefix_of_inner_extension:
  "endswith ''sales.csv.old.csv'' ''.csv'' \<and>
   prefix_of ''sales.csv.old.csv'' = ''sales.old'' \<and>
   strip_extension ''sales.csv.old.csv'' = ''sales.csv.old'' \<and>
   prefix_of ''sales.csv.old.csv'' \<noteq> strip_extension ''sales.csv.old.csv'' \<and>
   map fst (save_results ''/app'' ''sales.csv.old.csv'') =
     [''/app/results/sales.old_apriori_itemsets.csv'',
      ''/app/results/sales.old_apriori_rules.csv'',
      ''/app/results/sales.old_fpgrowth_itemsets.csv'',
      ''/app/results/sales.old_fpgrowth_rules.csv'']"
  by code_simp

section \<open>Properties of the rule merger\<close>

lemma ddf_keys:
  "(key \<circ> snd) ` set (drop_duplicates_from key seen xs) = (key \<circ> snd) ` set xs - seen"
  by (induction xs arbitrary: seen) auto

lemma ddf_distinct: "distinct (map (key \<circ> snd) (drop_duplicates_from key seen xs))"
proof (induction xs arbitrary: seen)
  case Nil
  then show ?case by simp
next
  case (Cons x xs)
  have "key (snd x) \<notin> (key \<circ> snd) ` set (drop_duplicates_from key (insert (key (snd x)) seen) xs)"
    unfolding ddf_keys by simp
  then show ?case using Cons.IH by simp
qed

lemma ddf_first:
  "x \<in> set (drop_duplicates_from key seen xs) \<Longrightarrow>
     find (\<lambda>y. key (snd y) = key (snd x)) xs = Some x"
proof (induction xs arbitrary: seen)
  case Nil
  then show ?case by simp
next
  case (Cons h xs)
  show ?case
  proof (cases "key (snd h) \<in> seen")
    case True
    with Cons.prems have x: "x \<in> set (drop_duplicates_from key seen xs)" by simp
    then have "(key \<circ> snd) x \<in> (key \<circ> snd) ` set xs - seen"
      unfolding ddf_keys[symmetric] by (rule imageI)
    then have "key (snd h) \<noteq> key (snd x)" using True by auto
    then show ?thesis using Cons.IH[OF x] by simp
  next
    case False
    show ?thesis
    proof (cases "x = h")
      case True
      then show ?thesis by simp
    next
      case ne: False
      with Cons.prems False
      have x: "x \<in> set (drop_duplicates_from key (insert (key (snd h)) seen) xs)" by simp
      then have "(key \<circ> snd) x \<in> (key \<circ> snd) ` set xs - insert (key (snd h)) seen"
        unfolding ddf_keys[symmetric] by (rule imageI)
      then have "key (snd h) \<noteq> key (snd x)" by auto
      then show ?thesis using Cons.IH[OF x] by simp
    qed
  qed
qed

lemma ddf_subseq: "subseq (drop_duplicates_from key seen xs) xs"
  by (induction xs arbitrary: seen) auto

lemma ddf_positions:
  "drop_duplicates_from key seen xs =
     map (\<lambda>i. xs ! i)
       (filter (\<lambda>i. key (snd (xs ! i)) \<notin> seen \<and> (\<forall>j < i. key (snd (xs ! j)) \<noteq> key (snd (xs ! i))))
          [0 ..< length xs])"
proof (induction xs arbitrary: seen)
  case Nil
  then show ?case by simp
next
  case (Cons x xs)
  let ?P = "\<lambda>s i. key (snd (xs ! i)) \<notin> s \<and> (\<forall>j < i. key (snd (xs ! j)) \<noteq> key (snd (xs ! i)))"
  let ?Q = "\<lambda>i. key (snd ((x # xs) ! i)) \<notin> seen \<and>
                 (\<forall>j < i. key (snd ((x # xs) ! j)) \<noteq> key (snd ((x # xs) ! i)))"
  have upt: "[0 ..< length (x # xs)] = 0 # map Suc [0 ..< length xs]"
    by (simp add: upt_conv_Cons map_Suc_upt del: upt_Suc)
  have Q_Suc: "?Q (Suc i) = (key (snd x) \<noteq> key (snd (xs ! i)) \<and> ?P seen i)" for i
    by (auto simp: All_less_Suc2)
  have tail: "map (\<lambda>i. (x # xs) ! i) (filter ?Q (map Suc [0 ..< length xs])) =
              map (\<lambda>i. xs ! i) (filter (\<lambda>i. ?Q (Suc i)) [0 ..< length xs])"
    by (simp add: filter_map comp_def)
  show ?case
  proof (cases "key (snd x) \<in> seen")
    case True
    have "filter (\<lambda>i. ?Q (Suc i)) [0 ..< length xs] = filter (?P seen) [0 ..< length xs]"
      unfolding Q_Suc using True by (intro filter_cong) auto
    moreover have "\<not> ?Q 0" using True by simp
    ultimately show ?thesis
      unfolding upt using True Cons.IH[of seen] tail by simp
  next
    case False
    have "filter (\<lambda>i. ?Q (Suc i)) [0 ..< length xs] =
          filter (?P (insert (key (snd x)) seen)) [0 ..< length xs]"
      unfolding Q_Suc by (intro filter_cong) auto
    moreover have "?Q 0" using False by simp
    ultimately show ?thesis
      unfolding upt using False Cons.IH[of "insert (key (snd x)) seen"] tail by simp
  qed
qed

text \<open>
  Claim C2.  The merged rules are the Apriori rows followed by the FP-Growth rows with
  the later duplicates removed.  By position: the output consists, in increasing order
  of position, of the rows of the concatenation at those positions \<open>i\<close> before which no
  row has the same (antecedents, consequents) pair.  Hence the pairs of the output are
  pairwise distinct, they are exactly the pairs that occur in either input, the output
  is a subsequence of the concatenation, and every output row is the first row of the
  concatenation with its pair, whole (label, confidence and the other fields included).
\<close>

theorem final_rules_first_occurrence:
  "final_rules apriori_rules fpg_rules =
     map (\<lambda>i. (apriori_rules @ fpg_rules) ! i)
       (filter (\<lambda>i. \<forall>j < i. rule_pair (snd ((apriori_rules @ fpg_rules) ! j)) \<noteq>
                             rule_pair (snd ((apriori_rules @ fpg_rules) ! i)))
          [0 ..< length (apriori_rules @ fpg_rules)]) \<and>
   distinct (map (rule_pair \<circ> snd) (final_rules apriori_rules fpg_rules)) \<and>
   (rule_pair \<circ> snd) ` set (final_rules apriori_rules fpg_rules) =
     (rule_pair \<circ> snd) ` (set apriori_rules \<union> set fpg_rules) \<and>
   subseq (final_rules apriori_rules fpg_rules) (apriori_rules @ fpg_rules) \<and>
   (\<forall>x \<in> set (final_rules apriori_rules fpg_rules).
      find (\<lambda>y. rule_pair (snd y) = rule_pair (snd x)) (apriori_rules @ fpg_rules) = Some x)"
proof (intro conjI)
  show "final_rules apriori_rules fpg_rules =
     map (\<lambda>i. (apriori_rules @ fpg_rules) ! i)
       (filter (\<lambda>i. \<forall>j < i. rule_pair (snd ((apriori_rules @ fpg_rules) ! j)) \<noteq>
                             rule_pair (snd ((apriori_rules @ fpg_rules) ! i)))
          [0 ..< length (apriori_rules @ fpg_rules)])"
    unfolding final_rules_def drop_duplicates_def pd_concat_def
    using ddf_positions[of rule_pair "{}" "apriori_rules @ fpg_rules"] by simp
qed (use ddf_keys[of rule_pair "{}" "apriori_rules @ fpg_rules"] in
      \<open>auto simp: final_rules_def drop_duplicates_def pd_concat_def ddf_distinct ddf_subseq ddf_first
            simp del: o_apply image_comp\<close>)

text \<open>
  The theorem of C2 where FP-Growth repeats one Apriori row unchanged and gives the
  rule bread \<open>\<rightarrow>\<close> milk with another confidence: the rows kept are those at the positions
  0, 1 and 4 of the concatenation, and the Apriori row for bread \<open>\<rightarrow>\<close> milk is the one
  kept.
\<close>

theorem final_rules_first_occurrence_witness:
  "final_rules
     [(0, \<lparr>antecedents = {''milk''}, consequents = {''bread''}, confidence = 3/4\<rparr>),
      (1, \<lparr>antecedents = {''bread''}, consequents = {''milk''}, confidence = 1/2\<rparr>)]
     [(0, \<lparr>antecedents = {''milk''}, consequents = {''bread''}, confidence = 3/4\<rparr>),
      (0, \<lparr>antecedents = {''bread''}, consequents = {''milk''}, confidence = 2/3\<rparr>),
      (1, \<lparr>antecedents = {''eggs''}, consequents = {''milk''}, confidence = 1\<rparr>)]
   = map (\<lambda>i.
       ([(0, \<lparr>antecedents = {''milk''}, consequents = {''bread''}, confidence = 3/4\<rparr>),
         (1, \<lparr>antecedents = {''bread''}, consequents = {''milk''}, confidence = 1/2\<rparr>)] @
        [(0, \<lparr>antecedents = {''milk''}, consequents = {''bread''}, confidence = 3/4\<rparr>),
         (0, \<lparr>antecedents = {''bread''}, consequents = {''milk''}, confidence = 2/3\<rparr>),
         (1, \<lparr>antecedents = {''eggs''}, consequents = {''milk''}, confidence = 1\<rparr>)]) ! i)
       [0, 1, 4] \<and>
   find (\<lambda>y. rule_pair (snd y) = ({''bread''}, {''milk''}))
     ([(0, \<lparr>antecedents = {''milk''}, consequents = {''bread''}, confidence = 3/4\<rparr>),
       (1, \<lparr>antecedents = {''bread''}, consequents = {''milk''}, confidence = 1/2\<rparr>)] @
      [(0, \<lparr>antecedents = {''milk''}, consequents = {''bread''}, confidence = 3/4\<rparr>),
       (0, \<lparr>antecedents = {''bread''}, consequents = {''milk''}, confidence = 2/3\<rparr>),
       (1, \<lparr>antecedents = {''eggs''}, consequents = {''milk''}, confidence = 1\<rparr>)] :: rule frame)
   = Some (1, \<lparr>antecedents = {''bread''}, consequents = {''milk''}, confidence = 1/2\<rparr>)"
proof -
  let ?a = "[(0, \<lparr>antecedents = {''milk''}, consequents = {''bread''}, confidence = 3/4\<rparr>),
      (1, \<lparr>antecedents = {''bread''}, consequents = {''milk''}, confidence = 1/2\<rparr>)] :: rule frame"
  let ?f = "[(0, \<lparr>antecedents = {''milk''}, consequents = {''bread''}, confidence = 3/4\<rparr>),
      (0, \<lparr>antecedents = {''bread''}, consequents = {''milk''}, confidence = 2/3\<rparr>),
      (1, \<lparr>antecedents = {''eggs''}, consequents = {''milk''}, confidence = 1\<rparr>)] :: rule frame"
  let ?x = "(1, \<lparr>antecedents = {''bread''}, consequents = {''milk''}, confidence = 1/2\<rparr>) :: int \<times> rule"
  have pos: "filter (\<lambda>i. \<forall>j < i. rule_pair (snd ((?a @ ?f) ! j)) \<noteq> rule_pair (snd ((?a @ ?f) ! i)))
               [0 ..< length (?a @ ?f)] = [0, 1, 4]"
    by code_simp
  have eq: "final_rules ?a ?f = map (\<lambda>i. (?a @ ?f) ! i) [0, 1, 4]"
    using final_rules_first_occurrence[of ?a ?f] unfolding pos by blast
  have "\<forall>x \<in> set (final_rules ?a ?f).
          find (\<lambda>y. rule_pair (snd y) = rule_pair (snd x)) (?a @ ?f) = Some x"
    using final_rules_first_occurrence[of ?a ?f] by blast
  moreover have "?x \<in> set (final_rules ?a ?f)" unfolding eq by simp
  ultimately have h: "find (\<lambda>y. rule_pair (snd y) = rule_pair (snd ?x)) (?a @ ?f) = Some ?x"
    by blast
  have k: "rule_pair (snd ?x) = ({''bread''}, {''milk''})" by (simp add: rule_pair_def)
  have "find (\<lambda>y. rule_pair (snd y) = ({''bread''}, {''milk''})) (?a @ ?f) = Some ?x"
    using h unfolding k .
  with eq show ?thesis by (rule conjI)
qed

section \<open>Properties of the folder setup and the dataset locator\<close>












section \<open>Properties of the input loops\<close>

















section \<open>Properties of the result reporter\<close>

text \<open>
  For a non-negative \<open>top_n\<close>, \<open>display_top_itemsets\<close> prints the two header lines and one
  line for each of the first \<open>top_n\<close> rows, so at most \<open>top_n\<close> records; and when the
  float product of support and row count is an integer, cutting and rounding agree.
\<close>

lemma display_top_itemsets_at_most:
  assumes "0 \<le> top_n"
  shows "display_top_itemsets str_items n itemsets_df table_name top_n =
           ([CHR 0x0A] @ table_name @ '':'') # ''Itemset | Count'' #
           map (\<lambda>(label, row). str_items (itemsets row) @ '' : '' @ str_of_int (itemset_count n row))
               (take (nat top_n) itemsets_df)"
    and "length (display_top_itemsets str_items n itemsets_df table_name top_n) \<le> 2 + nat top_n"
  using assms by (simp_all add: display_top_itemsets_def df_head_def)

lemma round_half_even_of_int: "round_half_even (of_int k) = k"
  by (simp add: round_half_even_def)

lemma itemset_count_exact:
  assumes "float_mul (support row) (float_of_int (int n)) = of_int k"
  shows "itemset_count n row = k" and "rounded_count n row = k"
  using assms by (simp_all add: itemset_count_def rounded_count_def int_of_float_def round_half_even_of_int)

text \<open>
  Claim C3 (where the script departs from it).  An itemset found in 29 of 100
  transactions has the support \<open>29 / 100\<close> rounded to a float.  Its product with 100,
  rounded to a float, is \<open>29 - 2^-48\<close>; \<open>int\<close> cuts it to 28, which is the count the
  script prints, whereas rounding gives 29.
\<close>

theorem itemset_count_truncates:
  "fl64 (29 / 100) = 5224175567749775 / 2 ^ 54 \<and>
   float_mul (fl64 (29 / 100)) (float_of_int 100) = 29 - 1 / 2 ^ 48 \<and>
   itemset_count 100 \<lparr>itemsets = {''milk''}, support = fl64 (29 / 100)\<rparr> = 28 \<and>
   rounded_count 100 \<lparr>itemsets = {''milk''}, support = fl64 (29 / 100)\<rparr> = 29 \<and>
   display_top_itemsets str_items_sorted 100
       [(0, \<lparr>itemsets = {''milk''}, support = fl64 (29 / 100)\<rparr>)] ''Table Apriori'' default_top_n =
     [[CHR 0x0A] @ ''Table Apriori:'', ''Itemset | Count'',
      ''['' @ [CHR 0x27] @ ''milk'' @ [CHR 0x27] @ ''] : 28'']"
proof -
  have a: "fl64 (29 / 100) = 5224175567749775 / 2 ^ 54" by code_simp
  have b: "float_of_int 100 = 100" by code_simp
  have c: "float_mul (5224175567749775 / 2 ^ 54) 100 = 29 - 1 / 2 ^ 48" by code_simp
  have d: "int_of_float (29 - 1 / 2 ^ 48) = 28" by code_simp
  have e: "round_half_even (29 - 1 / 2 ^ 48) = 29" by code_simp
  have f: "str_of_int 28 = ''28''" by code_simp
  have g: "str_items_sorted {''milk''} = ''['' @ [CHR 0x27] @ ''milk'' @ [CHR 0x27] @ '']''"
    by (simp add: str_items_sorted_def)
  have m: "float_mul (fl64 (29 / 100)) (float_of_int 100) = 29 - 1 / 2 ^ 48"
    unfolding a b by (rule c)
  have sel: "support \<lparr>itemsets = {''milk''}, support = fl64 (29 / 100)\<rparr> = fl64 (29 / 100)"
    by simp
  have "itemset_count 100 \<lparr>itemsets = {''milk''}, support = fl64 (29 / 100)\<rparr> =
          int_of_float (float_mul (fl64 (29 / 100)) (float_of_int 100))"
    by (simp only: itemset_count_def sel of_nat_numeral)
  also have "\<dots> = int_of_float (29 - 1 / 2 ^ 48)" by (simp only: m)
  finally have ic: "itemset_count 100 \<lparr>itemsets = {''milk''}, support = fl64 (29 / 100)\<rparr> = 28"
    by (simp only: d)
  have "rounded_count 100 \<lparr>itemsets = {''milk''}, support = fl64 (29 / 100)\<rparr> =
          round_half_even (float_mul (fl64 (29 / 100)) (float_of_int 100))"
    by (simp only: rounded_count_def sel of_nat_numeral)
  also have "\<dots> = round_half_even (29 - 1 / 2 ^ 48)" by (simp only: m)
  finally have rc: "rounded_count 100 \<lparr>itemsets = {''milk''}, support = fl64 (29 / 100)\<rparr> = 29"
    by (simp only: e)
  have disp: "display_top_itemsets str_items_sorted 100
       [(0, \<lparr>itemsets = {''milk''}, support = fl64 (29 / 100)\<rparr>)] ''Table Apriori'' default_top_n =
     [[CHR 0x0A] @ ''Table Apriori:'', ''Itemset | Count'',
      ''['' @ [CHR 0x27] @ ''milk'' @ [CHR 0x27] @ ''] : 28'']"
    by (simp add: display_top_itemsets_def df_head_def default_top_n_def ic f g)
  show ?thesis by (intro conjI a m ic rc disp)
qed

lemma digit_char_digit: "d < 10 \<Longrightarrow> digit_char d \<in> set ''0123456789''"
  unfolding digit_char_def by (rule nth_mem) simp

lemma tens_digit: "nat (((n::int) mod 100) div 10) < 10"
proof -
  define m where "m = n mod 100"
  have "0 \<le> m" and "m < 100" by (simp_all add: m_def)
  then have "m div 10 < 10" by presburger
  then show ?thesis unfolding m_def by simp
qed

lemma format_2f_two_decimals:
  "\<exists>whole d1 d2. format_2f x = whole @ ''.'' @ [d1, d2] \<and>
      d1 \<in> set ''0123456789'' \<and> d2 \<in> set ''0123456789''"
proof -
  let ?n = "round_half_even (\<bar>x\<bar> * 100)"
  let ?w = "(if x < 0 then ''-'' else []) @ str_of_int (?n div 100)"
  let ?d1 = "digit_char (nat ((?n mod 100) div 10))"
  let ?d2 = "digit_char (nat (?n mod 10))"
  have "format_2f x = ?w @ ''.'' @ [?d1, ?d2]" by (simp add: format_2f_def Let_def)
  moreover have "nat ((?n mod 100) div 10) < 10" by (rule tens_digit)
  then have "?d1 \<in> set ''0123456789''" by (rule digit_char_digit)
  moreover have "nat (?n mod 10) < 10"
    using pos_mod_bound[of 10 ?n] by simp
  then have "?d2 \<in> set ''0123456789''" by (rule digit_char_digit)
  ultimately show ?thesis by blast
qed

lemma map_by_position:
  assumes "map fst df = map int [0..<length df]"
  shows "map (\<lambda>(i, row). F i row) df = map (\<lambda>k. F (int k) (snd (df ! k))) [0..<length df]"
proof (rule nth_equalityI)
  show "length (map (\<lambda>(i, row). F i row) df) = length (map (\<lambda>k. F (int k) (snd (df ! k))) [0..<length df])"
    by simp
next
  fix k assume "k < length (map (\<lambda>(i, row). F i row) df)"
  then have k: "k < length df" by simp
  then have "map fst df ! k = map int [0..<length df] ! k" using assms by simp
  then have "fst (df ! k) = int k" using k by simp
  then show "map (\<lambda>(i, row). F i row) df ! k = map (\<lambda>k. F (int k) (snd (df ! k))) [0..<length df] ! k"
    using k by (simp add: case_prod_beta)
qed

text \<open>
  Claim C8, as stated, fails.  For an empty rule table the script prints the header
  \<open>Final Association Rules:\<close> before the notice, so the notice is not all it prints.
\<close>

theorem display_rules_empty_prints_header:
  "display_rules str_items_sorted ([] :: rule frame) =
     [[CHR 0x0A] @ ''Final Association Rules:'', ''No rules found for given thresholds.''] \<and>
   display_rules str_items_sorted ([] :: rule frame) \<noteq> [''No rules found for given thresholds.'']"
  by (simp add: display_rules_def)

text \<open>
  Claim C8, amended.  For an empty rule table \<open>display_rules\<close> prints the header and the
  notice, and nothing else.  For a non-empty table whose index labels are \<open>0, ..., n-1\<close>
  (as in the tables \<open>association_rules\<close> returns) it prints the header and then, for the
  rule at position \<open>k\<close>, a line with the index \<open>k + 1\<close>, the antecedent list and the
  consequent list, and a line with the confidence times 100 in the \<open>.2f\<close> format followed
  by \<open>%\<close>; that format always ends in a point and two decimal digits.
\<close>

theorem display_rules_output:
  "display_rules str_items [] =
     [[CHR 0x0A] @ ''Final Association Rules:'', ''No rules found for given thresholds.''] \<and>
   (rules_df \<noteq> [] \<and> map fst rules_df = map int [0..<length rules_df] \<longrightarrow>
      display_rules str_items rules_df =
        ([CHR 0x0A] @ ''Final Association Rules:'') #
        concat (map (\<lambda>k.
           [''Rule '' @ str_of_nat (Suc k) @ '': '' @ str_items (antecedents (snd (rules_df ! k))) @
              '' -> '' @ str_items (consequents (snd (rules_df ! k))),
            ''Confidence: '' @ format_2f (float_mul (confidence (snd (rules_df ! k))) 100) @
              ''%'' @ [CHR 0x0A]])
          [0..<length rules_df])) \<and>
   (\<exists>whole d1 d2. format_2f x = whole @ ''.'' @ [d1, d2] \<and>
      d1 \<in> set ''0123456789'' \<and> d2 \<in> set ''0123456789'')"
proof (intro conjI impI)
  show "display_rules str_items [] =
     [[CHR 0x0A] @ ''Final Association Rules:'', ''No rules found for given thresholds.'']"
    by (simp add: display_rules_def)
next
  assume a: "rules_df \<noteq> [] \<and> map fst rules_df = map int [0..<length rules_df]"
  have s: "str_of_int (int k + 1) = str_of_nat (Suc k)" for k
    by (simp add: str_of_int_def nat_add_distrib)
  have "map (\<lambda>(i, row).
             [''Rule '' @ str_of_int (i + 1) @ '': '' @ str_items (antecedents row) @
                '' -> '' @ str_items (consequents row),
              ''Confidence: '' @ format_2f (float_mul (confidence row) 100) @ ''%'' @ [CHR 0x0A]])
           rules_df =
        map (\<lambda>k.
           [''Rule '' @ str_of_int (int k + 1) @ '': '' @ str_items (antecedents (snd (rules_df ! k))) @
              '' -> '' @ str_items (consequents (snd (rules_df ! k))),
            ''Confidence: '' @ format_2f (float_mul (confidence (snd (rules_df ! k))) 100) @
              ''%'' @ [CHR 0x0A]])
          [0..<length rules_df]"
    using a by (intro map_by_position) simp
  then show "display_rules str_items rules_df =
        ([CHR 0x0A] @ ''Final Association Rules:'') #
        concat (map (\<lambda>k.
           [''Rule '' @ str_of_nat (Suc k) @ '': '' @ str_items (antecedents (snd (rules_df ! k))) @
              '' -> '' @ str_items (consequents (snd (rules_df ! k))),
            ''Confidence: '' @ format_2f (float_mul (confidence (snd (rules_df ! k))) 100) @
              ''%'' @ [CHR 0x0A]])
          [0..<length rules_df])"
    using a unfolding display_rules_def s by simp
next
  show "\<exists>whole d1 d2. format_2f x = whole @ ''.'' @ [d1, d2] \<and>
      d1 \<in> set ''0123456789'' \<and> d2 \<in> set ''0123456789''"
    by (rule format_2f_two_decimals)
qed


text \<open>The amended C8 for a table of two rules.\<close>

theorem display_rules_output_witness:
  "[(0, \<lparr>antecedents = {''milk''}, consequents = {''bread''}, confidence = 3 / 4\<rparr>),
    (1, \<lparr>antecedents = {''eggs'', ''bread''}, consequents = {''milk''}, confidence = fl64 (2 / 3)\<rparr>)]
     \<noteq> ([] :: rule frame) \<and>
   map fst [(0, \<lparr>antecedents = {''milk''}, consequents = {''bread''}, confidence = 3 / 4\<rparr>),
            (1, \<lparr>antecedents = {''eggs'', ''bread''}, consequents = {''milk''},
                  confidence = fl64 (2 / 3)\<rparr>) :: int \<times> rule] = map int [0..<2] \<and>
   display_rules str_items_sorted
     [(0, \<lparr>antecedents = {''milk''}, consequents = {''bread''}, confidence = 3 / 4\<rparr>),
      (1, \<lparr>antecedents = {''eggs'', ''bread''}, consequents = {''milk''}, confidence = fl64 (2 / 3)\<rparr>)] =
     [[CHR 0x0A] @ ''Final Association Rules:'',
      ''Rule 1: ['' @ [CHR 0x27] @ ''milk'' @ [CHR 0x27] @ ''] -> ['' @ [CHR 0x27] @ ''bread'' @ [CHR 0x27] @ '']'',
      ''Confidence: 75.00%'' @ [CHR 0x0A],
      ''Rule 2: ['' @ [CHR 0x27] @ ''bread'' @ [CHR 0x27] @ '', '' @ [CHR 0x27] @ ''eggs'' @ [CHR 0x27] @
        ''] -> ['' @ [CHR 0x27] @ ''milk'' @ [CHR 0x27] @ '']'',
      ''Confidence: 66.67%'' @ [CHR 0x0A]]"
proof -
  let ?df = "[(0, \<lparr>antecedents = {''milk''}, consequents = {''bread''}, confidence = 3 / 4\<rparr>),
      (1, \<lparr>antecedents = {''eggs'', ''bread''}, consequents = {''milk''}, confidence = fl64 (2 / 3)\<rparr>)]
      :: rule frame"
  have ne: "?df \<noteq> []" by simp
  have "map fst ?df = map int [0..<2]" by code_simp
  then have lab: "map fst ?df = map int [0..<length ?df]" by simp
  have E: "display_rules str_items_sorted ?df =
        ([CHR 0x0A] @ ''Final Association Rules:'') #
        concat (map (\<lambda>k.
           [''Rule '' @ str_of_nat (Suc k) @ '': '' @ str_items_sorted (antecedents (snd (?df ! k))) @
              '' -> '' @ str_items_sorted (consequents (snd (?df ! k))),
            ''Confidence: '' @ format_2f (float_mul (confidence (snd (?df ! k))) 100) @
              ''%'' @ [CHR 0x0A]])
          [0..<length ?df])"
    using display_rules_output[of str_items_sorted ?df 0] ne lab by blast
  have R: "([CHR 0x0A] @ ''Final Association Rules:'') #
        concat (map (\<lambda>k.
           [''Rule '' @ str_of_nat (Suc k) @ '': '' @ str_items_sorted (antecedents (snd (?df ! k))) @
              '' -> '' @ str_items_sorted (consequents (snd (?df ! k))),
            ''Confidence: '' @ format_2f (float_mul (confidence (snd (?df ! k))) 100) @
              ''%'' @ [CHR 0x0A]])
          [0..<length ?df]) =
     [[CHR 0x0A] @ ''Final Association Rules:'',
      ''Rule 1: ['' @ [CHR 0x27] @ ''milk'' @ [CHR 0x27] @ ''] -> ['' @ [CHR 0x27] @ ''bread'' @ [CHR 0x27] @ '']'',
      ''Confidence: 75.00%'' @ [CHR 0x0A],
      ''Rule 2: ['' @ [CHR 0x27] @ ''bread'' @ [CHR 0x27] @ '', '' @ [CHR 0x27] @ ''eggs'' @ [CHR 0x27] @
        ''] -> ['' @ [CHR 0x27] @ ''milk'' @ [CHR 0x27] @ '']'',
      ''Confidence: 66.67%'' @ [CHR 0x0A]]"
    by code_simp
  have "map fst ?df = map int [0..<2]" by code_simp
  with ne show ?thesis using E[unfolded R] by (intro conjI)
qed

end
